theory Spec2Isabelle
  imports Complex_Main "HOL-Library.Multiset"
begin

section \<open>Shared vocabulary\<close>

text \<open>
  Python exceptions are values.  \<open>NonException\<close> stands for a \<open>BaseException\<close> that is
  not an \<open>Exception\<close> (\<open>KeyboardInterrupt\<close>, \<open>SystemExit\<close>): an \<open>except Exception\<close>
  clause does not catch it, a \<open>finally\<close> clause still runs.
\<close>

datatype exn =
    ValueError string
  | HTTPException int string
  | OtherException string
  | NonException string

fun is_Exception :: "exn \<Rightarrow> bool" where
  "is_Exception (NonException _) = False"
| "is_Exception _ = True"

section \<open>Health endpoint (API.py, \<open>health_check\<close>)\<close>

text \<open>
  The four checks come from the \<open>monitoring\<close> module, which is not part of the sources;
  each returns a dictionary of which \<open>health_check\<close> reads the key \<open>status\<close> only.  They are
  parameters of the model.  \<open>checks[k].get("status")\<close> is \<open>None\<close> when the key is missing.
\<close>

type_synonym check_result = "string \<rightharpoonup> string"

record health_report =
  status :: string
  version :: string
  timestamp :: string
  mcp_enabled :: bool
  websocket_connections :: nat
  checks :: "string \<rightharpoonup> check_result"

definition status_acceptable :: "check_result \<Rightarrow> bool" where
  "status_acceptable c \<longleftrightarrow> c ''status'' = Some ''healthy'' \<or> c ''status'' = Some ''unavailable''"

definition critical_healthy :: "(string \<rightharpoonup> check_result) \<Rightarrow> bool" where
  "critical_healthy cks =
     list_all (\<lambda>k. case cks k of None \<Rightarrow> False | Some c \<Rightarrow> status_acceptable c)
       [''redis'', ''supabase'', ''mcp_servers'']"

definition health_check ::
  "check_result \<Rightarrow> check_result \<Rightarrow> check_result \<Rightarrow> check_result \<Rightarrow> string \<Rightarrow> nat \<Rightarrow> health_report"
where
  "health_check redis_status supabase_status broker_status mcp_status now n_connections =
     (let cks = [''redis'' \<mapsto> redis_status, ''supabase'' \<mapsto> supabase_status,
                 ''broker_api'' \<mapsto> broker_status, ''mcp_servers'' \<mapsto> mcp_status]
      in \<lparr> status = (if critical_healthy cks then ''healthy'' else ''degraded''),
           version = ''2.0.0'',
           timestamp = now,
           mcp_enabled = True,
           websocket_connections = n_connections,
           checks = cks \<rparr>)"

section \<open>Strings as Python uses them\<close>

text \<open>
  Queries and tokens are modelled as ASCII text.  \<open>str.upper\<close> and \<open>str.lower\<close> map the
  26 ASCII letters and leave every other character alone; \<open>p in s\<close> is the contiguous
  substring test; \<open>str.strip\<close> removes ASCII white space on both sides.
\<close>

definition ascii_lowercase :: string where
  "ascii_lowercase = ''abcdefghijklmnopqrstuvwxyz''"

definition ascii_uppercase :: string where
  "ascii_uppercase = ''ABCDEFGHIJKLMNOPQRSTUVWXYZ''"

definition upper_char :: "char \<Rightarrow> char" where
  "upper_char c =
     (case map_of (zip ascii_lowercase ascii_uppercase) c of Some u \<Rightarrow> u | None \<Rightarrow> c)"

definition lower_char :: "char \<Rightarrow> char" where
  "lower_char c =
     (case map_of (zip ascii_uppercase ascii_lowercase) c of Some l \<Rightarrow> l | None \<Rightarrow> c)"

definition upper :: "string \<Rightarrow> string" where
  "upper s = map upper_char s"

definition lower :: "string \<Rightarrow> string" where
  "lower s = map lower_char s"

fun startswith :: "string \<Rightarrow> string \<Rightarrow> bool" where
  "startswith s [] = True"
| "startswith [] (p # ps) = False"
| "startswith (c # cs) (p # ps) = (c = p \<and> startswith cs ps)"

fun str_contains :: "string \<Rightarrow> string \<Rightarrow> bool" where
  "str_contains p [] = (p = [])"
| "str_contains p (c # cs) = (startswith (c # cs) p \<or> str_contains p cs)"

definition isspace :: "char \<Rightarrow> bool" where
  "isspace c \<longleftrightarrow> c \<in> set [CHR '' '', CHR 0x09, CHR 0x0A, CHR 0x0B, CHR 0x0C, CHR 0x0D,
                             CHR 0x1C, CHR 0x1D, CHR 0x1E, CHR 0x1F]"

definition strip :: "string \<Rightarrow> string" where
  "strip s = rev (dropWhile isspace (rev (dropWhile isspace s)))"

section \<open>Request validation (API.py, \<open>MCPQueryRequest.sanitize_query\<close>)\<close>

record ExecuteAgentRequest =
  query :: string
  userId :: int
  sessionId :: "string option"

text \<open>\<open>MCPQueryRequest\<close> has the same three fields, and the validator below on \<open>query\<close>.\<close>

type_synonym MCPQueryRequest = ExecuteAgentRequest

definition dangerous_patterns :: "string list" where
  "dangerous_patterns = [''DROP'', ''DELETE'', ''TRUNCATE'', ''<script>'', ''javascript:'']"

text \<open>The \<open>for\<close> loop over the patterns: the first pattern found in \<open>v_upper\<close> raises.\<close>

fun check_patterns :: "string list \<Rightarrow> string \<Rightarrow> exn option" where
  "check_patterns [] v_upper = None"
| "check_patterns (pattern # rest) v_upper =
     (if str_contains pattern v_upper
      then Some (ValueError ''Query contains potentially dangerous content'')
      else check_patterns rest v_upper)"

definition sanitize_query :: "string \<Rightarrow> exn + string" where
  "sanitize_query v =
     (let v_upper = upper v
      in case check_patterns dangerous_patterns v_upper of
           Some e \<Rightarrow> Inl e
         | None \<Rightarrow> Inr (strip v))"

section \<open>The HTTP client (http_client.py)\<close>

subsection \<open>Context variables, the cache dictionaries and the network\<close>

text \<open>
  A \<open>Context\<close> is one \<open>contextvars.Context\<close>: the bindings of the two context variables
  \<open>_request_token\<close> and \<open>_request_cache\<close>, both \<open>None\<close> by default.  The cache variable
  holds a reference to a dictionary object; the dictionaries live in the \<open>world\<close>, so
  that two contexts can hold the same dictionary.  \<open>outbound\<close> is the log of the calls
  that went to \<open>_session\<close>.  What the session answers is the parameter \<open>net\<close>: it may
  depend on the calls made so far, and it may raise (a network failure).  One entry of
  the log is one call of \<open>_session.get\<close>/\<open>post\<close>/\<open>put\<close>/\<open>delete\<close>; whatever the
  mounted adapter does inside that call is part of \<open>net\<close>.

  \<open>session_headers\<close> holds the two headers that the module sets on the session (the
  library's own default headers are left out).  Keyword arguments are a dictionary from
  names to values.  The helpers \<open>_merge_headers\<close> and \<open>_apply_timeout\<close> are
  \<open>merge_headers\<close> and \<open>apply_timeout\<close> here.
\<close>

record Context =
  request_token :: "string option"
  request_cache :: "nat option"

definition default_context :: Context where
  "default_context = \<lparr> request_token = None, request_cache = None \<rparr>"

record response =
  ok :: bool
  body :: string

datatype kwarg = IntArg int | StrArg string

record request =
  req_method :: string
  req_url :: string
  req_headers :: "string \<rightharpoonup> string"
  req_kwargs :: "string \<rightharpoonup> kwarg"

type_synonym network = "request list \<Rightarrow> request \<Rightarrow> exn + response"

record world =
  dicts :: "nat \<Rightarrow> (string \<rightharpoonup> response)"
  fresh :: nat
  outbound :: "request list"

definition DEFAULT_TIMEOUT :: int where
  "DEFAULT_TIMEOUT = 15"

definition session_headers :: "string \<rightharpoonup> string" where
  "session_headers = [''Content-Type'' \<mapsto> ''application/json'',
                      ''User-Agent'' \<mapsto> ''MCP-FinancialAgent/1.0'']"

subsection \<open>Token and cache\<close>

definition set_request_token :: "string option \<Rightarrow> Context \<Rightarrow> Context" where
  "set_request_token token ctx = ctx\<lparr>request_token := token\<rparr>"

text \<open>Python's \<open>a or b\<close> on optional strings: \<open>None\<close> and the empty string are false.\<close>

definition truthy :: "string option \<Rightarrow> bool" where
  "truthy t \<longleftrightarrow> (case t of None \<Rightarrow> False | Some s \<Rightarrow> s \<noteq> [])"

definition py_or :: "string option \<Rightarrow> string option \<Rightarrow> string option" where
  "py_or a b = (if truthy a then a else b)"

definition get_auth_headers :: "string option \<Rightarrow> Context \<Rightarrow> (string \<rightharpoonup> string)" where
  "get_auth_headers token ctx =
     (let use_token = py_or token (request_token ctx);
          headers = session_headers
      in case use_token of
           None \<Rightarrow> headers
         | Some t \<Rightarrow>
             if t = [] then headers
             else headers(''Authorization'' \<mapsto>
                    (if startswith (lower t) ''bearer '' then t else ''Bearer '' @ t)))"

definition init_request_cache :: "Context \<Rightarrow> world \<Rightarrow> Context \<times> world" where
  "init_request_cache ctx w =
     (ctx\<lparr>request_cache := Some (fresh w)\<rparr>,
      w\<lparr>dicts := (dicts w)(fresh w := Map.empty), fresh := Suc (fresh w)\<rparr>)"

definition clear_request_cache :: "Context \<Rightarrow> Context" where
  "clear_request_cache ctx = ctx\<lparr>request_cache := None\<rparr>"

subsection \<open>Internal helpers and the public methods\<close>

definition merge_headers :: "(string \<rightharpoonup> string) option \<Rightarrow> Context \<Rightarrow> (string \<rightharpoonup> string)" where
  "merge_headers headers ctx =
     (let merged = get_auth_headers None ctx
      in case headers of None \<Rightarrow> merged | Some h \<Rightarrow> merged ++ h)"

definition apply_timeout :: "(string \<rightharpoonup> kwarg) \<Rightarrow> (string \<rightharpoonup> kwarg)" where
  "apply_timeout kwargs =
     (if kwargs ''timeout'' = None then kwargs(''timeout'' \<mapsto> IntArg DEFAULT_TIMEOUT) else kwargs)"

definition session_call :: "network \<Rightarrow> request \<Rightarrow> world \<Rightarrow> (exn + response) \<times> world" where
  "session_call net req w = (net (outbound w) req, w\<lparr>outbound := outbound w @ [req]\<rparr>)"


definition post ::
  "network \<Rightarrow> string \<Rightarrow> (string \<rightharpoonup> string) option \<Rightarrow> (string \<rightharpoonup> kwarg) \<Rightarrow>
     Context \<Rightarrow> world \<Rightarrow> (exn + response) \<times> world"
where
  "post net url headers kwargs ctx w =
     session_call net \<lparr> req_method = ''POST'', req_url = url,
                        req_headers = merge_headers headers ctx,
                        req_kwargs = apply_timeout kwargs \<rparr> w"

definition put ::
  "network \<Rightarrow> string \<Rightarrow> (string \<rightharpoonup> string) option \<Rightarrow> (string \<rightharpoonup> kwarg) \<Rightarrow>
     Context \<Rightarrow> world \<Rightarrow> (exn + response) \<times> world"
where
  "put net url headers kwargs ctx w =
     session_call net \<lparr> req_method = ''PUT'', req_url = url,
                        req_headers = merge_headers headers ctx,
                        req_kwargs = apply_timeout kwargs \<rparr> w"

definition delete ::
  "network \<Rightarrow> string \<Rightarrow> (string \<rightharpoonup> string) option \<Rightarrow> (string \<rightharpoonup> kwarg) \<Rightarrow>
     Context \<Rightarrow> world \<Rightarrow> (exn + response) \<times> world"
where
  "delete net url headers kwargs ctx w =
     session_call net \<lparr> req_method = ''DELETE'', req_url = url,
                        req_headers = merge_headers headers ctx,
                        req_kwargs = apply_timeout kwargs \<rparr> w"

subsection \<open>The steps of \<open>get\<close>, for calls that overlap\<close>





section \<open>Agent and orchestration endpoints (API.py)\<close>

text \<open>
  The agents and the orchestrator are external: each is a parameter that, run in the
  endpoint's context, returns a text or raises, and may change the context and the world
  in any way.  Logging is left out.  \<open>try \<dots> except Exception \<dots> finally\<close> is written out:
  an \<open>Exception\<close> of the body is replaced by the handler's result, any other exception
  passes through, and the two statements of the \<open>finally\<close> clause run in every case.
\<close>

datatype reply =
    AgentReply string int
  | OrchestrationReply string
  | ErrorReply string string bool

type_synonym agent = "string \<Rightarrow> int \<Rightarrow> Context \<Rightarrow> world \<Rightarrow> (exn + string) \<times> Context \<times> world"

type_synonym orchestrator =
  "int \<Rightarrow> string \<Rightarrow> string option \<Rightarrow> Context \<Rightarrow> world \<Rightarrow> (exn + string) \<times> Context \<times> world"

text \<open>
  The five agent endpoints have the same body up to the agent called and the detail of the
  error; \<open>agent_endpoint\<close> is that body.
\<close>

definition agent_endpoint ::
  "string \<Rightarrow> agent \<Rightarrow> ExecuteAgentRequest \<Rightarrow> string \<Rightarrow> Context \<Rightarrow> world \<Rightarrow>
     (exn + reply) \<times> Context \<times> world"
where
  "agent_endpoint detail run_agent payload token ctx w =
     (let ctx1 = set_request_token (Some token) ctx;
          (ctx2, w2) = init_request_cache ctx1 w;
          (outcome, ctx3, w3) =
             (case run_agent (query payload) (userId payload) ctx2 w2 of
                (Inr result, c, w') \<Rightarrow> (Inr (AgentReply result (userId payload)), c, w')
              | (Inl exc, c, w') \<Rightarrow>
                  if is_Exception exc then (Inl (HTTPException 500 detail), c, w')
                  else (Inl exc, c, w'));
          ctx4 = clear_request_cache ctx3;
          ctx5 = set_request_token None ctx4
      in (outcome, ctx5, w3))"

definition execute_agent_endpoint ::
  "agent \<Rightarrow> ExecuteAgentRequest \<Rightarrow> string \<Rightarrow> Context \<Rightarrow> world \<Rightarrow> (exn + reply) \<times> Context \<times> world"
where
  "execute_agent_endpoint run_execute_agent =
     agent_endpoint ''Failed to execute agent'' run_execute_agent"

definition investment_strategy_agent_endpoint ::
  "agent \<Rightarrow> ExecuteAgentRequest \<Rightarrow> string \<Rightarrow> Context \<Rightarrow> world \<Rightarrow> (exn + reply) \<times> Context \<times> world"
where
  "investment_strategy_agent_endpoint run_investment_strategy_agent =
     agent_endpoint ''Failed to execute strategy agent'' run_investment_strategy_agent"

definition market_research_agent_endpoint ::
  "agent \<Rightarrow> ExecuteAgentRequest \<Rightarrow> string \<Rightarrow> Context \<Rightarrow> world \<Rightarrow> (exn + reply) \<times> Context \<times> world"
where
  "market_research_agent_endpoint run_market_research_agent =
     agent_endpoint ''Failed to execute agent'' run_market_research_agent"

definition general_agent_endpoint ::
  "agent \<Rightarrow> ExecuteAgentRequest \<Rightarrow> string \<Rightarrow> Context \<Rightarrow> world \<Rightarrow> (exn + reply) \<times> Context \<times> world"
where
  "general_agent_endpoint run_general_agent =
     agent_endpoint ''Failed to execute agent'' run_general_agent"

definition portfolio_manager_agent_endpoint ::
  "agent \<Rightarrow> ExecuteAgentRequest \<Rightarrow> string \<Rightarrow> Context \<Rightarrow> world \<Rightarrow> (exn + reply) \<times> Context \<times> world"
where
  "portfolio_manager_agent_endpoint run_portfolio_manager_agent =
     agent_endpoint ''Failed to execute agent'' run_portfolio_manager_agent"

definition mcp_query_endpoint ::
  "orchestrator \<Rightarrow> MCPQueryRequest \<Rightarrow> string \<Rightarrow> Context \<Rightarrow> world \<Rightarrow> (exn + reply) \<times> Context \<times> world"
where
  "mcp_query_endpoint orchestrate payload token ctx w =
     (let ctx1 = set_request_token (Some token) ctx;
          (ctx2, w2) = init_request_cache ctx1 w;
          (outcome, ctx3, w3) =
             (case orchestrate (userId payload) (query payload) (sessionId payload) ctx2 w2 of
                (Inr result, c, w') \<Rightarrow> (Inr (OrchestrationReply result), c, w')
              | (Inl exc, c, w') \<Rightarrow>
                  if is_Exception exc
                  then (Inr (ErrorReply ''Internal server error''
                               ''Failed to process your request. Please try again later.'' False),
                        c, w')
                  else (Inl exc, c, w'));
          ctx4 = clear_request_cache ctx3;
          ctx5 = set_request_token None ctx4
      in (outcome, ctx5, w3))"

section \<open>WebSocket connections (API.py, \<open>ConnectionManager\<close>)\<close>











section \<open>Rate limiting (API.py, \<open>RateLimiter\<close>)\<close>

text \<open>
  \<open>time.time()\<close> is the argument \<open>now\<close>, a real number.  \<open>_requests\<close> is a
  \<open>defaultdict(list)\<close>: reading a missing key gives the empty list (\<open>requests_of\<close>).
  \<open>_maybe_cleanup\<close> deletes the keys whose list is empty or whose last time stamp is
  before the cutoff, at most once every 300 seconds.
\<close>

record RateLimiter =
  max_requests :: int
  window_seconds :: int
  requests :: "string \<rightharpoonup> real list"
  last_cleanup :: real

definition RateLimiter_init :: "int \<Rightarrow> int \<Rightarrow> RateLimiter" where
  "RateLimiter_init max_req window_sec =
     \<lparr> max_requests = max_req, window_seconds = window_sec,
       requests = Map.empty, last_cleanup = 0 \<rparr>"

definition requests_of :: "RateLimiter \<Rightarrow> string \<Rightarrow> real list" where
  "requests_of rl key = (case requests rl key of None \<Rightarrow> [] | Some v \<Rightarrow> v)"

definition maybe_cleanup :: "real \<Rightarrow> RateLimiter \<Rightarrow> RateLimiter" where
  "maybe_cleanup now rl =
     (if now - last_cleanup rl < 300 then rl
      else let cutoff = now - real_of_int (window_seconds rl);
               stale = (\<lambda>k. case requests rl k of
                              None \<Rightarrow> False
                            | Some v \<Rightarrow> v = [] \<or> last v < cutoff)
           in rl\<lparr>last_cleanup := now,
                 requests := (\<lambda>k. if stale k then None else requests rl k)\<rparr>)"

definition is_allowed :: "string \<Rightarrow> real \<Rightarrow> RateLimiter \<Rightarrow> bool \<times> RateLimiter" where
  "is_allowed key now rl0 =
     (let rl = maybe_cleanup now rl0;
          window_start = now - real_of_int (window_seconds rl);
          kept = filter (\<lambda>t. t > window_start) (requests_of rl key);
          rl1 = rl\<lparr>requests := (requests rl)(key \<mapsto> kept)\<rparr>
      in if int (length kept) \<ge> max_requests rl1 then (False, rl1)
         else (True, rl1\<lparr>requests := (requests rl1)(key \<mapsto> kept @ [now])\<rparr>))"

text \<open>
  A sequence of calls, each with the clock value it reads and its key, run from a limiter;
  the answers are returned in the order of the calls.
\<close>

fun run_calls :: "RateLimiter \<Rightarrow> (real \<times> string) list \<Rightarrow> bool list \<times> RateLimiter" where
  "run_calls rl [] = ([], rl)"
| "run_calls rl ((now, key) # rest) =
     (case is_allowed key now rl of
        (allowed, rl') \<Rightarrow> (case run_calls rl' rest of (results, rl'') \<Rightarrow> (allowed # results, rl'')))"

section \<open>Parallel fetch (\<open>_fetch_parallel\<close> in \<open>tools/investment_strategy_tools.py\<close>)\<close>

text \<open>
  A task is a zero-argument callable: run in a context, it returns a value or raises.  The
  tasks handed to \<open>_fetch_parallel\<close> are independent reads; what a task returns is
  taken to depend on the context it runs in only.  \<open>copy_context\<close> gives a snapshot with
  the bindings of the current context.

  With at most one callable the list comprehension \<open>[f() for f in funcs]\<close> runs in the
  caller's context (\<open>call_all\<close>).  Otherwise every callable is submitted to the pool with
  a context of its own.  A future is \<open>None\<close> until its task has completed, then it holds
  the task's value or exception.  The order in which the tasks complete is the parameter
  \<open>completion\<close>, a list of positions.  \<open>join_results\<close> is \<open>[f.result() for f in futures]\<close>
  on completed futures: the first exception met is raised.  Leaving the \<open>with\<close> block
  waits for every submitted task, so the call returns only when all futures are completed
  (\<open>those\<close>); the result \<open>None\<close> of \<open>fetch_parallel\<close> means that it does not return.
\<close>

type_synonym 'a task = "Context \<Rightarrow> exn + 'a"

definition copy_context :: "Context \<Rightarrow> Context" where
  "copy_context ctx = ctx"

fun call_all :: "'a task list \<Rightarrow> Context \<Rightarrow> exn + 'a list" where
  "call_all [] ctx = Inr []"
| "call_all (f # fs) ctx =
     (case f ctx of
        Inl e \<Rightarrow> Inl e
      | Inr v \<Rightarrow> (case call_all fs ctx of Inl e \<Rightarrow> Inl e | Inr vs \<Rightarrow> Inr (v # vs)))"

type_synonym 'a future = "(exn + 'a) option"

definition complete :: "Context list \<Rightarrow> 'a task list \<Rightarrow> nat \<Rightarrow> 'a future list \<Rightarrow> 'a future list" where
  "complete contexts funcs i futures =
     (if i < length futures then futures[i := Some ((funcs ! i) (contexts ! i))] else futures)"

definition run_pool :: "nat list \<Rightarrow> Context list \<Rightarrow> 'a task list \<Rightarrow> 'a future list" where
  "run_pool completion contexts funcs =
     fold (complete contexts funcs) completion (replicate (length funcs) None)"

fun join_results :: "(exn + 'a) list \<Rightarrow> exn + 'a list" where
  "join_results [] = Inr []"
| "join_results (Inl e # fs) = Inl e"
| "join_results (Inr v # fs) =
     (case join_results fs of Inl e \<Rightarrow> Inl e | Inr vs \<Rightarrow> Inr (v # vs))"

definition fetch_parallel :: "nat list \<Rightarrow> 'a task list \<Rightarrow> Context \<Rightarrow> (exn + 'a list) option" where
  "fetch_parallel completion funcs ctx =
     (if length funcs \<le> 1 then Some (call_all funcs ctx)
      else let contexts = map (\<lambda>_. copy_context ctx) funcs;
               futures = run_pool completion contexts funcs
           in map_option join_results (those futures))"

text \<open>
  The pool runs every task that was submitted to it: as long as tasks are pending, one of
  them completes next and its future is filled with its value or its exception; which of
  the pending tasks that is, is up to the scheduler (the parameter \<open>pick\<close>, asked at
  each turn).  The pool never looks at what a task returned or raised, and leaving the
  \<open>with\<close> block waits for all of them.  \<open>completion_order\<close> is the order in which the
  tasks complete under a scheduler.
\<close>

function completion_order :: "(nat \<Rightarrow> nat) \<Rightarrow> nat \<Rightarrow> nat list \<Rightarrow> nat list" where
  "completion_order pick k [] = []"
| "completion_order pick k (p # ps) =
     (let i = (p # ps) ! (pick k mod length (p # ps))
      in i # completion_order pick (Suc k) (remove1 i (p # ps)))"
  by pat_completeness auto
termination
proof (relation "measure (\<lambda>(pick, k, pending). length pending)")
  show "wf (measure (\<lambda>(pick, k, pending). length pending))" by simp
next
  fix pick :: "nat \<Rightarrow> nat" and k p ps x
  assume x: "x = (p # ps) ! (pick k mod length (p # ps))"
  have "x \<in> set (p # ps)"
    unfolding x by (rule nth_mem) simp
  then have "length (remove1 x (p # ps)) < length (p # ps)"
    by (simp add: length_remove1 del: remove1.simps)
  then show "((pick, Suc k, remove1 x (p # ps)), (pick, k, p # ps))
        \<in> measure (\<lambda>(pick, k, pending). length pending)"
    by simp
qed

section \<open>Concurrent requests and their contexts\<close>

text \<open>
  Every flow of control runs in a context of its own; contexts are numbered.  The
  framework runs each inbound request in its own context, and \<open>_fetch_parallel\<close> runs
  each subtask in a copy of the context of the flow that spawned it.  The steps that
  touch or read \<open>_request_token\<close> are: \<open>set_request_token(token)\<close> at the start of an
  endpoint (\<open>Attach\<close>), \<open>set_request_token(None)\<close> in its \<open>finally\<close> clause
  (\<open>Detach\<close>), \<open>copy_context()\<close> for a subtask (\<open>Spawn\<close>, with the context copied and
  the number of the copy), and \<open>get_auth_headers()\<close>, which every outbound call goes
  through (\<open>Resolve\<close>).  Each step runs in one context; what a \<open>Resolve\<close> finds as
  \<open>Authorization\<close> header is recorded in \<open>observed\<close>, with the context it ran in.
\<close>

datatype event = Attach nat string | Detach nat | Spawn nat nat | Resolve nat

record system =
  bindings :: "nat \<Rightarrow> Context"
  observed :: "(nat \<times> string option) list"

fun step :: "event \<Rightarrow> system \<Rightarrow> system" where
  "step (Attach c token) s =
     s\<lparr>bindings := (bindings s)(c := set_request_token (Some token) (bindings s c))\<rparr>"
| "step (Detach c) s =
     s\<lparr>bindings := (bindings s)(c := set_request_token None (bindings s c))\<rparr>"
| "step (Spawn c c') s =
     s\<lparr>bindings := (bindings s)(c' := copy_context (bindings s c))\<rparr>"
| "step (Resolve c) s =
     s\<lparr>observed := observed s @ [(c, get_auth_headers None (bindings s c) ''Authorization'')]\<rparr>"

definition exec :: "event list \<Rightarrow> system \<Rightarrow> system" where
  "exec evs s = fold step evs s"

definition initial :: system where
  "initial = \<lparr> bindings = (\<lambda>c. default_context), observed = [] \<rparr>"

text \<open>
  What one request does, as the endpoints are written: it attaches its token in its own
  context \<open>main\<close>, runs the agent, and detaches.  The agent's part (\<open>acts\<close>) resolves
  the credential and spawns subtasks, which resolve and spawn in turn: a well-formed sequence of steps
  resolves and spawns only in the request's context or in a context spawned before in
  that sequence, and does not rebind the token.  \<open>contexts_of\<close> are the contexts of the
  request, \<open>resolved\<close> the contexts of its resolutions in program order.  A concurrent
  execution of two requests is any interleaving of their programs.
\<close>

definition request_program :: "nat \<Rightarrow> string \<Rightarrow> event list \<Rightarrow> event list" where
  "request_program main token acts = Attach main token # acts @ [Detach main]"

fun wf_body :: "nat set \<Rightarrow> event list \<Rightarrow> bool" where
  "wf_body live [] = True"
| "wf_body live (Resolve c # evs) = (c \<in> live \<and> wf_body live evs)"
| "wf_body live (Spawn c c' # evs) = (c \<in> live \<and> wf_body (insert c' live) evs)"
| "wf_body live (Attach c token # evs) = False"
| "wf_body live (Detach c # evs) = False"

fun spawned :: "event list \<Rightarrow> nat set" where
  "spawned [] = {}"
| "spawned (Spawn c c' # evs) = insert c' (spawned evs)"
| "spawned (ev # evs) = spawned evs"

definition contexts_of :: "nat \<Rightarrow> event list \<Rightarrow> nat set" where
  "contexts_of main acts = insert main (spawned acts)"

fun resolved :: "event list \<Rightarrow> nat list" where
  "resolved [] = []"
| "resolved (Resolve c # evs) = c # resolved evs"
| "resolved (ev # evs) = resolved evs"

section \<open>Predicates used in the statements\<close>


text \<open>The context an endpoint leaves behind holds neither a token nor a cache.\<close>

definition request_state_cleared :: "'a \<times> Context \<times> world \<Rightarrow> bool" where
  "request_state_cleared r \<longleftrightarrow>
     request_token (fst (snd r)) = None \<and> request_cache (fst (snd r)) = None"

text \<open>
  The admission times of a key in a sequence of calls with their answers, and the
  invariant that ties the limiter's state to that history: the stored list of a key is
  sorted, and above any cutoff that the clock can still reach it agrees with the admission
  times of the key.
\<close>

definition admitted :: "string \<Rightarrow> (real \<times> string) list \<Rightarrow> bool list \<Rightarrow> real list" where
  "admitted key calls results =
     map (\<lambda>(c, a). fst c) (filter (\<lambda>(c, a). a \<and> snd c = key) (zip calls results))"

definition limiter_inv :: "int \<Rightarrow> int \<Rightarrow> RateLimiter \<Rightarrow> (real \<times> string) list \<Rightarrow> bool list \<Rightarrow> bool" where
  "limiter_inv m ws rl calls results \<longleftrightarrow>
     max_requests rl = m \<and> window_seconds rl = ws \<and> length results = length calls \<and>
     (\<forall>k. sorted (requests_of rl k) \<and> set (requests_of rl k) \<subseteq> fst ` set calls
        \<and> (\<forall>T. (\<forall>t\<in>fst ` set calls. t \<le> T) \<longrightarrow>
              filter (\<lambda>t. t > T - real_of_int ws) (requests_of rl k) =
              filter (\<lambda>t. t > T - real_of_int ws) (admitted k calls results))
        \<and> sorted (admitted k calls results)
        \<and> (admitted k calls results \<noteq> [] \<longrightarrow> 0 < m)
        \<and> (\<forall>s. int (length (filter (\<lambda>t. s - real_of_int ws < t \<and> t \<le> s) (admitted k calls results))) \<le> m))"


text \<open>
  The \<open>Authorization\<close> header that carries a credential: the credential itself when it
  starts with "bearer " in any case, with "Bearer " put before it otherwise.
\<close>

definition bearer :: "string \<Rightarrow> string" where
  "bearer tok = (if startswith (lower tok) ''bearer '' then tok else ''Bearer '' @ tok)"

text \<open>
  A step runs and writes within the contexts \<open>C\<close>; in the contexts \<open>C\<close> the token is
  unset or is \<open>tok\<close>; two systems agree on the contexts \<open>C\<close>: the same bindings there and
  the same resolutions made there.
\<close>

fun runs_in :: "nat set \<Rightarrow> event \<Rightarrow> bool" where
  "runs_in C (Attach c token) = (c \<in> C)"
| "runs_in C (Detach c) = (c \<in> C)"
| "runs_in C (Spawn c c') = (c \<in> C \<and> c' \<in> C)"
| "runs_in C (Resolve c) = (c \<in> C)"

definition own_or_none :: "nat set \<Rightarrow> string \<Rightarrow> system \<Rightarrow> bool" where
  "own_or_none C tok s \<longleftrightarrow>
     (\<forall>c\<in>C. request_token (bindings s c) = None \<or> request_token (bindings s c) = Some tok)"

definition agree :: "nat set \<Rightarrow> system \<Rightarrow> system \<Rightarrow> bool" where
  "agree C s s' \<longleftrightarrow>
     (\<forall>c\<in>C. bindings s c = bindings s' c)
     \<and> filter (\<lambda>(c, h). c \<in> C) (observed s) = filter (\<lambda>(c, h). c \<in> C) (observed s')"

section \<open>Theorems\<close>

subsection \<open>Health endpoint\<close>

text \<open>
  C10, as stated: the overall status is "healthy" only if every dependency, the broker API
  included, reports healthy or unavailable.  The code does not look at the broker's
  status: with a broker reporting "unhealthy" and the three other checks healthy, the
  report says "healthy".
\<close>

theorem health_check_broker_counterexample:
  "status (health_check [''status'' \<mapsto> ''healthy''] [''status'' \<mapsto> ''healthy'']
             [''status'' \<mapsto> ''unhealthy''] [''status'' \<mapsto> ''healthy''] ''t'' 0) = ''healthy''
   \<and> \<not> status_acceptable [''status'' \<mapsto> ''unhealthy'']"
  by (simp add: health_check_def critical_healthy_def status_acceptable_def)

text \<open>
  C10, amended: the overall status is "healthy" exactly when the pub/sub channel (redis),
  the memory store (supabase) and the agent-serving processes (mcp_servers) each report
  "healthy" or "unavailable", and "degraded" otherwise; the broker API's check is reported
  but has no influence on the overall status.
\<close>

theorem health_check_status:
  "status (health_check r s b m now n) =
     (if status_acceptable r \<and> status_acceptable s \<and> status_acceptable m
      then ''healthy'' else ''degraded'')"
  by (simp add: health_check_def critical_healthy_def)

theorem health_check_status_witness:
  "status (health_check [''status'' \<mapsto> ''healthy''] [''status'' \<mapsto> ''unavailable'']
             [''status'' \<mapsto> ''unhealthy''] [''status'' \<mapsto> ''healthy''] ''t'' 2) = ''healthy''
   \<and> status (health_check [''status'' \<mapsto> ''unhealthy''] [''status'' \<mapsto> ''healthy'']
             [''status'' \<mapsto> ''healthy''] [''status'' \<mapsto> ''healthy''] ''t'' 2) = ''degraded''"
  using health_check_status [of "[''status'' \<mapsto> ''healthy'']" "[''status'' \<mapsto> ''unavailable'']"
          "[''status'' \<mapsto> ''unhealthy'']" "[''status'' \<mapsto> ''healthy'']" "''t''" 2]
        health_check_status [of "[''status'' \<mapsto> ''unhealthy'']" "[''status'' \<mapsto> ''healthy'']"
          "[''status'' \<mapsto> ''healthy'']" "[''status'' \<mapsto> ''healthy'']" "''t''" 2]
  by (simp add: status_acceptable_def)

subsection \<open>Query validation\<close>

lemmas string_eval =
  upper_def upper_char_def lower_def lower_char_def ascii_lowercase_def ascii_uppercase_def
  strip_def isspace_def

lemma upper_char_not_lowercase: "upper_char c \<notin> set ascii_lowercase"
  unfolding upper_char_def ascii_lowercase_def ascii_uppercase_def
  by (auto split: option.splits if_splits)

lemma upper_no_lowercase: "c \<in> set (upper v) \<Longrightarrow> c \<notin> set ascii_lowercase"
  using upper_char_not_lowercase by (auto simp: upper_def)

lemma startswith_set: "startswith s p \<Longrightarrow> set p \<subseteq> set s"
  by (induction s p rule: startswith.induct) auto

lemma str_contains_set: "str_contains p s \<Longrightarrow> set p \<subseteq> set s"
proof (induction p s rule: str_contains.induct)
  case (1 p)
  then show ?case by simp
next
  case (2 p c cs)
  from "2.prems" consider "startswith (c # cs) p" | "str_contains p cs" by auto
  then show ?case
  proof cases
    case 1
    then show ?thesis by (rule startswith_set)
  next
    case 2
    with "2.IH" show ?thesis by auto
  qed
qed

text \<open>
  The input is upper-cased, the two script markers of the list are written in lower case:
  they are never found, whatever the query.
\<close>

lemma script_patterns_never_match:
  "\<not> str_contains ''<script>'' (upper v)" "\<not> str_contains ''javascript:'' (upper v)"
  using upper_no_lowercase[of "CHR ''s''" v] str_contains_set[of "''<script>''" "upper v"]
    str_contains_set[of "''javascript:''" "upper v"]
  by (auto simp: ascii_lowercase_def)

lemma sanitize_query_rejects_iff:
  "(\<exists>e. sanitize_query v = Inl e) \<longleftrightarrow>
     str_contains ''DROP'' (upper v) \<or> str_contains ''DELETE'' (upper v)
     \<or> str_contains ''TRUNCATE'' (upper v)"
  using script_patterns_never_match[of v]
  by (auto simp: sanitize_query_def dangerous_patterns_def Let_def split: option.splits)

lemma sanitize_query_drop_table:
  "sanitize_query ''please Drop Table users'' =
     Inl (ValueError ''Query contains potentially dangerous content'')"
  by (simp add: sanitize_query_def dangerous_patterns_def string_eval)

text \<open>
  C8: a query that contains a denylisted marker, compared without regard to case, is
  rejected.  The code rejects the SQL markers, but a query with \<open><script>\<close> or
  \<open>javascript:\<close> passes validation and is returned stripped: the validator compares the
  upper-cased query with the lower-case markers.
\<close>

theorem sanitize_query_script_not_rejected:
  "sanitize_query ''<script>alert(1)</script>'' = Inr ''<script>alert(1)</script>''
   \<and> sanitize_query ''visit javascript:void(0) '' = Inr ''visit javascript:void(0)''"
  by (simp add: sanitize_query_def dangerous_patterns_def string_eval)

subsection \<open>Cleanup at the end of a request\<close>

lemma agent_endpoint_cleanup:
  "request_state_cleared (agent_endpoint detail run payload token ctx w)"
  by (auto simp: request_state_cleared_def agent_endpoint_def set_request_token_def
        clear_request_cache_def init_request_cache_def Let_def
      split: prod.splits sum.splits if_splits)

lemma mcp_query_endpoint_cleanup:
  "request_state_cleared (mcp_query_endpoint orchestrate payload token ctx w)"
  by (auto simp: request_state_cleared_def mcp_query_endpoint_def set_request_token_def
        clear_request_cache_def init_request_cache_def Let_def
      split: prod.splits sum.splits if_splits)

text \<open>
  C9: whatever the agent or the orchestrator does (return a text, raise an \<open>Exception\<close>,
  raise anything else, rebind the context variables), the context left by each of the five
  agent endpoints and by the orchestration endpoint has no token and no cache.
\<close>

theorem endpoints_clear_request_state:
  "request_state_cleared (execute_agent_endpoint run payload token ctx w)
   \<and> request_state_cleared (investment_strategy_agent_endpoint run payload token ctx w)
   \<and> request_state_cleared (market_research_agent_endpoint run payload token ctx w)
   \<and> request_state_cleared (general_agent_endpoint run payload token ctx w)
   \<and> request_state_cleared (portfolio_manager_agent_endpoint run payload token ctx w)
   \<and> request_state_cleared (mcp_query_endpoint orchestrate payload token ctx w)"
  by (simp add: execute_agent_endpoint_def investment_strategy_agent_endpoint_def
        market_research_agent_endpoint_def general_agent_endpoint_def
        portfolio_manager_agent_endpoint_def agent_endpoint_cleanup mcp_query_endpoint_cleanup)

theorem endpoints_clear_request_state_witness:
  "request_state_cleared
     (execute_agent_endpoint (\<lambda>q u c w. (Inl (OtherException ''boom''), c, w))
        \<lparr>query = ''buy'', userId = 7, sessionId = None\<rparr> ''jwt'' default_context
        \<lparr>dicts = (\<lambda>a. Map.empty), fresh = 0, outbound = []\<rparr>)
   \<and> fst (execute_agent_endpoint (\<lambda>q u c w. (Inl (OtherException ''boom''), c, w))
        \<lparr>query = ''buy'', userId = 7, sessionId = None\<rparr> ''jwt'' default_context
        \<lparr>dicts = (\<lambda>a. Map.empty), fresh = 0, outbound = []\<rparr>)
       = Inl (HTTPException 500 ''Failed to execute agent'')
   \<and> request_state_cleared
     (mcp_query_endpoint (\<lambda>u q s c w. (Inr ''done'', c\<lparr>request_token := Some ''other''\<rparr>, w))
        \<lparr>query = ''buy'', userId = 7, sessionId = None\<rparr> ''jwt'' default_context
        \<lparr>dicts = (\<lambda>a. Map.empty), fresh = 0, outbound = []\<rparr>)"
  using endpoints_clear_request_state
    [of "\<lambda>q u c w. (Inl (OtherException ''boom''), c, w)"
        "\<lparr>query = ''buy'', userId = 7, sessionId = None\<rparr>" "''jwt''" default_context
        "\<lparr>dicts = (\<lambda>a. Map.empty), fresh = 0, outbound = []\<rparr>"
        "\<lambda>u q s c w. (Inr ''done'', c\<lparr>request_token := Some ''other''\<rparr>, w)"]
  by (simp add: execute_agent_endpoint_def agent_endpoint_def init_request_cache_def Let_def)

subsection \<open>Broadcast\<close>






subsection \<open>The request-scoped GET cache\<close>










subsection \<open>Parallel fetch\<close>

lemma length_fold_complete:
  "length (fold (complete contexts funcs) completion futures) = length futures"
  by (induction completion arbitrary: futures) (auto simp: complete_def)

lemma nth_fold_complete:
  "i < length futures \<Longrightarrow>
     fold (complete contexts funcs) completion futures ! i =
       (if i \<in> set completion then Some ((funcs ! i) (contexts ! i)) else futures ! i)"
proof (induction completion arbitrary: futures)
  case Nil
  then show ?case by simp
next
  case (Cons j completion)
  have len: "i < length (complete contexts funcs j futures)"
    using Cons.prems by (simp add: complete_def)
  show ?case
    using Cons.IH[OF len] Cons.prems
    by (auto simp: complete_def nth_list_update)
qed

lemma run_pool_all_complete:
  assumes "set completion = {0..<length funcs}"
  shows "run_pool completion (map (\<lambda>_. copy_context ctx) funcs) funcs = map (\<lambda>f. Some (f ctx)) funcs"
proof (rule nth_equalityI)
  show "length (run_pool completion (map (\<lambda>_. copy_context ctx) funcs) funcs)
          = length (map (\<lambda>f. Some (f ctx)) funcs)"
    by (simp add: run_pool_def length_fold_complete)
next
  fix i
  assume "i < length (run_pool completion (map (\<lambda>_. copy_context ctx) funcs) funcs)"
  then have i: "i < length funcs"
    by (simp add: run_pool_def length_fold_complete)
  with assms show "run_pool completion (map (\<lambda>_. copy_context ctx) funcs) funcs ! i
                     = map (\<lambda>f. Some (f ctx)) funcs ! i"
    by (simp add: run_pool_def nth_fold_complete copy_context_def)
qed

lemma those_map_Some: "those (map (\<lambda>x. Some (g x)) xs) = Some (map g xs)"
  by (induction xs) auto

lemma call_all_join: "call_all funcs ctx = join_results (map (\<lambda>f. f ctx) funcs)"
  by (induction funcs) (auto split: sum.splits)

lemma fetch_parallel_join:
  assumes "mset completion = mset [0..<length funcs]"
  shows "fetch_parallel completion funcs ctx = Some (join_results (map (\<lambda>f. f ctx) funcs))"
proof -
  from assms have "set completion = {0..<length funcs}"
    by (metis mset_eq_setD set_upt)
  then show ?thesis
    by (simp add: fetch_parallel_def call_all_join run_pool_all_complete those_map_Some)
qed

lemma join_results_all_ok:
  "length rs = length xs \<Longrightarrow> \<forall>i<length xs. xs ! i = Inr (rs ! i) \<Longrightarrow> join_results xs = Inr rs"
proof (induction xs arbitrary: rs)
  case Nil
  then show ?case by simp
next
  case (Cons x xs)
  then obtain r rs' where rs: "rs = r # rs'" by (cases rs) auto
  from Cons.prems rs have x: "x = Inr r" by (auto dest: spec[of _ 0])
  from Cons.prems rs have "\<forall>i<length xs. xs ! i = Inr (rs' ! i)" by fastforce
  with Cons.IH[of rs'] Cons.prems rs have "join_results xs = Inr rs'" by simp
  with x rs show ?case by simp
qed

lemma join_results_first_failure:
  "i < length xs \<Longrightarrow> xs ! i = Inl e \<Longrightarrow> \<forall>j<i. \<exists>v. xs ! j = Inr v \<Longrightarrow> join_results xs = Inl e"
proof (induction xs arbitrary: i)
  case Nil
  then show ?case by simp
next
  case (Cons x xs)
  show ?case
  proof (cases i)
    case 0
    with Cons.prems show ?thesis by simp
  next
    case (Suc k)
    with Cons.prems obtain v where x: "x = Inr v" by (auto dest: spec[of _ 0])
    from Cons.prems Suc have "\<forall>j<k. \<exists>v. xs ! j = Inr v" by fastforce
    with Cons.IH[of k] Cons.prems Suc have "join_results xs = Inl e" by simp
    with x show ?thesis by simp
  qed
qed

text \<open>
  C6: when every task has completed (in any order) and none raises, \<open>_fetch_parallel\<close>
  returns, and returns the tasks' values in the order of the tasks.
\<close>

theorem fetch_parallel_positional_order:
  assumes "mset completion = mset [0..<length funcs]"
      and "length results = length funcs"
      and "\<forall>i<length funcs. (funcs ! i) ctx = Inr (results ! i)"
  shows "fetch_parallel completion funcs ctx = Some (Inr results)"
  using fetch_parallel_join[OF assms(1), of ctx] join_results_all_ok[of results "map (\<lambda>f. f ctx) funcs"] assms(2,3)
  by simp

theorem fetch_parallel_positional_order_witness:
  "mset [1, 2, 0] = mset [0..<length [(\<lambda>c. Inr ''prefs''), (\<lambda>c. Inr ''txns''), (\<lambda>c. Inr ''dash'')]]
   \<and> fetch_parallel [1, 2, 0] [(\<lambda>c. Inr ''prefs''), (\<lambda>c. Inr ''txns''), (\<lambda>c. Inr ''dash'')]
        default_context = Some (Inr [''prefs'', ''txns'', ''dash''])"
proof -
  let ?funcs = "[(\<lambda>c. Inr ''prefs''), (\<lambda>c. Inr ''txns''), (\<lambda>c. Inr ''dash'')] :: string task list"
  have h1: "mset [1, 2, 0] = mset [0..<length ?funcs]"
    by (simp add: upt_rec)
  have h2: "length [''prefs'', ''txns'', ''dash''] = length ?funcs" by simp
  have h3: "\<forall>i<length ?funcs. (?funcs ! i) default_context = Inr ([''prefs'', ''txns'', ''dash''] ! i)"
    by (simp add: nth_Cons split: nat.splits)
  from fetch_parallel_positional_order [OF h1 h2 h3] h1 show ?thesis by simp
qed

text \<open>
  C7, as stated: a raising task's exception reaches its slot of the joined results and the
  siblings' results are kept.  With three tasks of which the second and the third raise,
  the join raises the second task's exception out of \<open>_fetch_parallel\<close>: no list is
  returned, the first task's result is dropped and the third task's exception is never seen.
\<close>

theorem fetch_parallel_raises_first_failure_only:
  "fetch_parallel [2, 0, 1]
     [(\<lambda>c. Inr ''prefs''), (\<lambda>c. Inl (OtherException ''first'')), (\<lambda>c. Inl (OtherException ''second''))]
     default_context = Some (Inl (OtherException ''first''))"
  by (simp add: fetch_parallel_def run_pool_def complete_def copy_context_def)

lemma mset_completion_order: "mset (completion_order pick k pending) = mset pending"
proof (induction pick k pending rule: completion_order.induct)
  case (1 pick k)
  then show ?case by simp
next
  case (2 pick k p ps)
  let ?i = "(p # ps) ! (pick k mod length (p # ps))"
  have mem: "?i \<in> set (p # ps)" by (rule nth_mem) simp
  from "2.IH"[of ?i] have "mset (completion_order pick (Suc k) (remove1 ?i (p # ps))) = mset (remove1 ?i (p # ps))"
    by simp
  with mem show ?case
    by (simp add: Let_def del: remove1.simps)
qed

text \<open>
  C7, amended: whatever the scheduler does and whichever tasks raise, every task is run:
  with two or more tasks each future ends up holding exactly its own task's value or
  exception, so a failure neither cancels a sibling nor alters its outcome; the call
  returns, and the join, going through the tasks in positional order, re-raises the
  exception of the first failing task out of \<open>_fetch_parallel\<close>, so that no list of
  results is returned.  (A single task is called inline; its exception is raised as it is.)
  The last part says the same of the join for any order of completion given as a list.
\<close>

theorem fetch_parallel_failure_policy:
  "(1 < length funcs \<longrightarrow>
      run_pool (completion_order pick 0 [0..<length funcs]) (map (\<lambda>_. copy_context ctx) funcs) funcs
        = map (\<lambda>f. Some (f ctx)) funcs)
   \<and> fetch_parallel (completion_order pick 0 [0..<length funcs]) funcs ctx
        = Some (join_results (map (\<lambda>f. f ctx) funcs))
   \<and> (\<forall>i<length funcs. \<forall>e. (funcs ! i) ctx = Inl e \<and> (\<forall>j<i. \<exists>v. (funcs ! j) ctx = Inr v) \<longrightarrow>
         fetch_parallel (completion_order pick 0 [0..<length funcs]) funcs ctx = Some (Inl e))
   \<and> (\<forall>completion. mset completion = mset [0..<length funcs] \<longrightarrow>
         fetch_parallel completion funcs ctx = Some (join_results (map (\<lambda>f. f ctx) funcs)))"
proof -
  let ?order = "completion_order pick 0 [0..<length funcs]"
  have perm: "mset ?order = mset [0..<length funcs]"
    by (rule mset_completion_order)
  then have set: "set ?order = {0..<length funcs}"
    by (metis mset_eq_setD set_upt)
  have join: "fetch_parallel ?order funcs ctx = Some (join_results (map (\<lambda>f. f ctx) funcs))"
    by (rule fetch_parallel_join[OF perm])
  have first: "fetch_parallel ?order funcs ctx = Some (Inl e)"
    if "i < length funcs" "(funcs ! i) ctx = Inl e \<and> (\<forall>j<i. \<exists>v. (funcs ! j) ctx = Inr v)" for i e
  proof -
    have "join_results (map (\<lambda>f. f ctx) funcs) = Inl e"
      using that by (intro join_results_first_failure[of i]) auto
    with join show ?thesis by simp
  qed
  have any: "fetch_parallel completion funcs ctx = Some (join_results (map (\<lambda>f. f ctx) funcs))"
    if "mset completion = mset [0..<length funcs]" for completion
    using that by (rule fetch_parallel_join)
  from run_pool_all_complete[OF set] join first any show ?thesis by blast
qed

theorem fetch_parallel_failure_policy_witness:
  "run_pool (completion_order (\<lambda>k. 2) 0 [0..<3]) (map (\<lambda>_. copy_context default_context)
          [(\<lambda>c. Inr ''prefs''), (\<lambda>c. Inl (OtherException ''boom'')), (\<lambda>c. Inr ''dash'')])
          [(\<lambda>c. Inr ''prefs''), (\<lambda>c. Inl (OtherException ''boom'')), (\<lambda>c. Inr ''dash'')]
       = [Some (Inr ''prefs''), Some (Inl (OtherException ''boom'')), Some (Inr ''dash'')]
   \<and> fetch_parallel (completion_order (\<lambda>k. 2) 0 [0..<3])
          [(\<lambda>c. Inr ''prefs''), (\<lambda>c. Inl (OtherException ''boom'')), (\<lambda>c. Inr ''dash'')]
          default_context = Some (Inl (OtherException ''boom''))
   \<and> completion_order (\<lambda>k. 2) 0 [0..<3] = [2, 0, 1]"
proof -
  let ?funcs = "[(\<lambda>c. Inr ''prefs''), (\<lambda>c. Inl (OtherException ''boom'')), (\<lambda>c. Inr ''dash'')]
                  :: string task list"
  have len: "length ?funcs = 3" by simp
  have ord: "completion_order (\<lambda>k. 2) 0 [0..<3] = [2, 0, 1]" by code_simp
  note T = fetch_parallel_failure_policy [of ?funcs "\<lambda>k. 2" default_context, unfolded len]
  from T ord show ?thesis by simp
qed

subsection \<open>Rate limiting\<close>

lemma run_calls_snoc:
  "run_calls rl (calls @ [(now, key)]) =
     (case run_calls rl calls of
        (results, rl') \<Rightarrow> (case is_allowed key now rl' of (a, rl'') \<Rightarrow> (results @ [a], rl'')))"
  by (induction calls arbitrary: rl) (auto split: prod.splits)

lemma admitted_snoc:
  "length results = length calls \<Longrightarrow>
   admitted k (calls @ [(now, key)]) (results @ [a]) =
     admitted k calls results @ (if a \<and> key = k then [now] else [])"
  by (simp add: admitted_def)

lemma sorted_le_last: "sorted v \<Longrightarrow> t \<in> set v \<Longrightarrow> t \<le> last v"
proof (induction v rule: rev_induct)
  case Nil
  then show ?case by simp
next
  case (snoc x xs)
  then show ?case by (auto simp: sorted_append)
qed

lemma filter_stale_empty:
  fixes c c' :: real
  assumes "sorted v" "v = [] \<or> last v < c" "c \<le> c'"
  shows "filter (\<lambda>t. t > c') v = []"
proof (cases "v = []")
  case True
  then show ?thesis by simp
next
  case False
  have "\<forall>t\<in>set v. t \<le> last v"
    using assms(1) sorted_le_last by blast
  with assms False show ?thesis by (fastforce simp: filter_empty_conv)
qed

lemma length_filter_mono:
  "(\<And>x. x \<in> set xs \<Longrightarrow> P x \<Longrightarrow> Q x) \<Longrightarrow> length (filter P xs) \<le> length (filter Q xs)"
  by (induction xs) auto

lemma cleanup_fields [simp]:
  "max_requests (maybe_cleanup now rl) = max_requests rl"
  "window_seconds (maybe_cleanup now rl) = window_seconds rl"
  by (simp_all add: maybe_cleanup_def Let_def)

lemma cleanup_requests:
  "requests_of (maybe_cleanup now rl) k = requests_of rl k \<or>
   (requests_of (maybe_cleanup now rl) k = [] \<and>
    (requests_of rl k = [] \<or> last (requests_of rl k) < now - real_of_int (window_seconds rl)))"
  by (auto simp: maybe_cleanup_def requests_of_def Let_def split: option.splits)

lemma cleanup_filter:
  assumes "sorted (requests_of rl k)" "now \<le> T"
  shows "filter (\<lambda>t. t > T - real_of_int (window_seconds rl)) (requests_of (maybe_cleanup now rl) k)
       = filter (\<lambda>t. t > T - real_of_int (window_seconds rl)) (requests_of rl k)"
proof -
  from cleanup_requests[of now rl k] show ?thesis
  proof
    assume "requests_of (maybe_cleanup now rl) k = requests_of rl k"
    then show ?thesis by simp
  next
    assume h: "requests_of (maybe_cleanup now rl) k = [] \<and>
      (requests_of rl k = [] \<or> last (requests_of rl k) < now - real_of_int (window_seconds rl))"
    have "filter (\<lambda>t. t > T - real_of_int (window_seconds rl)) (requests_of rl k) = []"
      using assms h by (intro filter_stale_empty[where c="now - real_of_int (window_seconds rl)"]) auto
    with h show ?thesis by simp
  qed
qed

lemma is_allowed_result:
  "fst (is_allowed key now rl) \<longleftrightarrow>
     int (length (filter (\<lambda>t. t > now - real_of_int (window_seconds rl))
                    (requests_of (maybe_cleanup now rl) key))) < max_requests rl"
  by (auto simp: is_allowed_def Let_def)

lemma is_allowed_fields [simp]:
  "max_requests (snd (is_allowed key now rl)) = max_requests rl"
  "window_seconds (snd (is_allowed key now rl)) = window_seconds rl"
  by (simp_all add: is_allowed_def Let_def)

lemma is_allowed_requests:
  "requests_of (snd (is_allowed key now rl)) k =
     (if k = key
      then filter (\<lambda>t. t > now - real_of_int (window_seconds rl)) (requests_of (maybe_cleanup now rl) key)
             @ (if fst (is_allowed key now rl) then [now] else [])
      else requests_of (maybe_cleanup now rl) k)"
  by (auto simp: is_allowed_def Let_def requests_of_def)

lemma admitted_subset:
  "set (admitted k calls results) \<subseteq> fst ` set calls"
  by (auto simp: admitted_def dest!: set_zip_leftD)

lemma inv_init: "0 \<le> m \<Longrightarrow> limiter_inv m ws (RateLimiter_init m ws) [] []"
  by (simp add: limiter_inv_def RateLimiter_init_def requests_of_def admitted_def)

lemma filter_filter_window:
  fixes c c' :: real
  shows "c \<le> c' \<Longrightarrow> filter (\<lambda>t. t > c') (filter (\<lambda>t. t > c) xs) = filter (\<lambda>t. t > c') xs"
  by (induction xs) auto

lemma inv_step:
  assumes inv: "limiter_inv m ws rl calls results"
      and up: "\<forall>t\<in>fst ` set calls. t \<le> now"
  shows "limiter_inv m ws (snd (is_allowed key now rl)) (calls @ [(now, key)])
           (results @ [fst (is_allowed key now rl)])"
proof -
  let ?W = "real_of_int ws"
  let ?rc = "maybe_cleanup now rl"
  let ?a = "fst (is_allowed key now rl)"
  let ?rl' = "snd (is_allowed key now rl)"
  let ?kept = "filter (\<lambda>t. t > now - ?W) (requests_of ?rc key)"
  let ?calls' = "calls @ [(now, key)]"
  let ?res' = "results @ [?a]"
  from inv have m: "max_requests rl = m" and w: "window_seconds rl = ws"
    and len: "length results = length calls"
    by (simp_all add: limiter_inv_def)
  have invk: "sorted (requests_of rl k)" "set (requests_of rl k) \<subseteq> fst ` set calls"
    "\<And>T. (\<forall>t\<in>fst ` set calls. t \<le> T) \<Longrightarrow>
          filter (\<lambda>t. t > T - ?W) (requests_of rl k) = filter (\<lambda>t. t > T - ?W) (admitted k calls results)"
    "sorted (admitted k calls results)"
    "admitted k calls results \<noteq> [] \<Longrightarrow> 0 < m"
    "\<And>s. int (length (filter (\<lambda>t. s - ?W < t \<and> t \<le> s) (admitted k calls results))) \<le> m"
    for k
    using inv by (simp_all add: limiter_inv_def)
  have F1: "sorted (requests_of ?rc k)" for k
    using cleanup_requests[of now rl k] invk(1)[of k] by auto
  have F2: "set (requests_of ?rc k) \<subseteq> fst ` set calls" for k
    using cleanup_requests[of now rl k] invk(2)[of k] by auto
  have F3: "filter (\<lambda>t. t > T - ?W) (requests_of ?rc k) = filter (\<lambda>t. t > T - ?W) (admitted k calls results)"
    if "now \<le> T" for T k
  proof -
    from that up have "\<forall>t\<in>fst ` set calls. t \<le> T" by fastforce
    with invk(3)[of T k] cleanup_filter[OF invk(1)[of k] that] w show ?thesis by simp
  qed
  have a_iff: "?a \<longleftrightarrow> int (length ?kept) < m"
    using is_allowed_result[of key now rl] m w by simp
  have req': "requests_of ?rl' k = (if k = key then ?kept @ (if ?a then [now] else []) else requests_of ?rc k)" for k
    using is_allowed_requests[of key now rl k] w by simp
  have adm': "admitted k ?calls' ?res' = admitted k calls results @ (if ?a \<and> key = k then [now] else [])" for k
    using admitted_snoc[OF len] by simp
  have kept_le: "\<forall>t\<in>set ?kept. t \<le> now"
    using F2[of key] up by auto
  have fields: "max_requests ?rl' = m" "window_seconds ?rl' = ws" "length ?res' = length ?calls'"
    using m w len by simp_all
  have perk: "sorted (requests_of ?rl' k) \<and> set (requests_of ?rl' k) \<subseteq> fst ` set ?calls'
        \<and> (\<forall>T. (\<forall>t\<in>fst ` set ?calls'. t \<le> T) \<longrightarrow>
              filter (\<lambda>t. t > T - ?W) (requests_of ?rl' k) =
              filter (\<lambda>t. t > T - ?W) (admitted k ?calls' ?res'))
        \<and> sorted (admitted k ?calls' ?res')
        \<and> (admitted k ?calls' ?res' \<noteq> [] \<longrightarrow> 0 < m)
        \<and> (\<forall>s. int (length (filter (\<lambda>t. s - ?W < t \<and> t \<le> s) (admitted k ?calls' ?res'))) \<le> m)" for k
  proof (intro conjI allI impI)
    show "sorted (requests_of ?rl' k)"
    proof (cases "k = key")
      case True
      have "sorted ?kept" using F1[of key] by (simp add: sorted_wrt_filter)
      with kept_le True show ?thesis
        by (simp add: req' sorted_append)
    next
      case False
      then show ?thesis by (simp add: req' F1)
    qed
  next
    show "set (requests_of ?rl' k) \<subseteq> fst ` set ?calls'"
      using F2[of k] F2[of key] by (auto simp: req')
  next
    fix T
    assume "\<forall>t\<in>fst ` set ?calls'. t \<le> T"
    then have T: "now \<le> T" by simp
    show "filter (\<lambda>t. t > T - ?W) (requests_of ?rl' k) = filter (\<lambda>t. t > T - ?W) (admitted k ?calls' ?res')"
    proof (cases "k = key")
      case True
      have "filter (\<lambda>t. t > T - ?W) ?kept = filter (\<lambda>t. t > T - ?W) (requests_of ?rc key)"
        using T by (intro filter_filter_window) simp
      also have "\<dots> = filter (\<lambda>t. t > T - ?W) (admitted key calls results)"
        by (rule F3[OF T])
      finally show ?thesis using True by (simp add: req' adm')
    next
      case False
      then show ?thesis using F3[OF T, of k] by (simp add: req' adm')
    qed
  next
    show "sorted (admitted k ?calls' ?res')"
      using invk(4)[of k] admitted_subset[of k calls results] up
      by (auto simp: adm' sorted_append)
  next
    assume ne: "admitted k ?calls' ?res' \<noteq> []"
    show "0 < m"
    proof (cases "?a")
      case True
      with a_iff have "int (length ?kept) < m" by simp
      then show ?thesis by linarith
    next
      case False
      from ne have "admitted k calls results \<noteq> []"
        unfolding adm' using False by simp
      with invk(5)[of k] show ?thesis by simp
    qed
  next
    fix s
    let ?P = "\<lambda>t. s - ?W < t \<and> t \<le> s"
    show "int (length (filter ?P (admitted k ?calls' ?res'))) \<le> m"
    proof (cases "?a \<and> key = k \<and> ?P now")
      case False
      then have "filter ?P (admitted k ?calls' ?res') = filter ?P (admitted k calls results)"
        by (auto simp: adm')
      with invk(6)[of s k] show ?thesis by simp
    next
      case True
      then have k: "k = key" and a: "?a" and P: "s - ?W < now" "now \<le> s" by auto
      have "length (filter ?P (admitted key calls results))
              \<le> length (filter (\<lambda>t. t > now - ?W) (admitted key calls results))"
      proof (rule length_filter_mono)
        fix x assume "x \<in> set (admitted key calls results)" "s - ?W < x \<and> x \<le> s"
        with P show "x > now - ?W" by linarith
      qed
      also have "\<dots> = length ?kept"
        using F3[of now key] by simp
      finally have "int (length (filter ?P (admitted key calls results))) < m"
        using a a_iff by linarith
      moreover have "filter ?P (admitted k ?calls' ?res') = filter ?P (admitted key calls results) @ [now]"
        unfolding adm' using k a P by simp
      ultimately show ?thesis by simp
    qed
  qed
  show ?thesis
    unfolding limiter_inv_def using fields perk by blast
qed

lemma run_calls_inv:
  assumes "0 \<le> m" "sorted (map fst calls)"
  shows "limiter_inv m ws (snd (run_calls (RateLimiter_init m ws) calls)) calls
           (fst (run_calls (RateLimiter_init m ws) calls))"
  using assms(2)
proof (induction calls rule: rev_induct)
  case Nil
  then show ?case using inv_init[OF assms(1)] by simp
next
  case (snoc c calls)
  obtain now key where c: "c = (now, key)" by (cases c)
  from snoc.prems have s: "sorted (map fst calls)" and up: "\<forall>t\<in>fst ` set calls. t \<le> now"
    by (auto simp: sorted_append c)
  from inv_step[OF snoc.IH[OF s] up, of key] show ?case
    by (simp add: c run_calls_snoc case_prod_beta)
qed

text \<open>
  C2: a limiter created with a limit \<open>m \<ge> 0\<close> and a window \<open>ws\<close> answers any
  sequence of calls whose clock values do not decrease.  For every key: (1) in any window
  \<open>(s - ws, s]\<close> at most \<open>m\<close> admitted calls of the key have their admission time;
  (2) the next call of the key, at a time \<open>now\<close>, is admitted exactly when fewer than
  \<open>m\<close> admission times of the key lie after \<open>now - ws\<close>, so with \<open>m\<close> of them in
  the trailing window it is refused; (3) once \<open>ws\<close> has elapsed since the last
  admission of the key, the next call of the key is admitted.
\<close>

theorem rate_limiter_sliding_window:
  assumes "0 \<le> m" and "sorted (map fst calls)"
      and "run_calls (RateLimiter_init m ws) calls = (results, rl)"
  shows "(\<forall>s. int (length (filter (\<lambda>t. s - real_of_int ws < t \<and> t \<le> s)
                              (admitted key calls results))) \<le> m)
       \<and> (\<forall>now. (\<forall>t\<in>set (map fst calls). t \<le> now) \<longrightarrow>
             (fst (is_allowed key now rl) \<longleftrightarrow>
                int (length (filter (\<lambda>t. now - real_of_int ws < t) (admitted key calls results))) < m))
       \<and> (\<forall>now. (\<forall>t\<in>set (map fst calls). t \<le> now) \<and> admitted key calls results \<noteq> []
                \<and> last (admitted key calls results) + real_of_int ws \<le> now \<longrightarrow>
             fst (is_allowed key now rl))"
proof -
  let ?W = "real_of_int ws"
  let ?adm = "admitted key calls results"
  from run_calls_inv[OF assms(1,2), of ws] assms(3)
  have inv: "limiter_inv m ws rl calls results" by simp
  then have m: "max_requests rl = m" and w: "window_seconds rl = ws"
    and srt: "sorted (requests_of rl key)"
    and eq: "\<And>T. (\<forall>t\<in>fst ` set calls. t \<le> T) \<Longrightarrow>
          filter (\<lambda>t. t > T - ?W) (requests_of rl key) = filter (\<lambda>t. t > T - ?W) ?adm"
    and sadm: "sorted ?adm"
    and pos: "?adm \<noteq> [] \<Longrightarrow> 0 < m"
    and win: "\<And>s. int (length (filter (\<lambda>t. s - ?W < t \<and> t \<le> s) ?adm)) \<le> m"
    by (simp_all add: limiter_inv_def)
  have allowed_iff: "fst (is_allowed key now rl) \<longleftrightarrow> int (length (filter (\<lambda>t. now - ?W < t) ?adm)) < m"
    if up: "\<forall>t\<in>set (map fst calls). t \<le> now" for now
  proof -
    from up have up': "\<forall>t\<in>fst ` set calls. t \<le> now" by simp
    have "filter (\<lambda>t. t > now - ?W) (requests_of (maybe_cleanup now rl) key)
            = filter (\<lambda>t. t > now - ?W) ?adm"
      using cleanup_filter[OF srt, of now now] eq[OF up'] w by simp
    then show ?thesis
      using is_allowed_result[of key now rl] m w by simp
  qed
  have again: "fst (is_allowed key now rl)"
    if h: "(\<forall>t\<in>set (map fst calls). t \<le> now) \<and> ?adm \<noteq> [] \<and> last ?adm + ?W \<le> now" for now
  proof -
    have "\<forall>t\<in>set ?adm. t \<le> last ?adm"
      using sadm sorted_le_last by blast
    with h have "filter (\<lambda>t. now - ?W < t) ?adm = []"
      by (fastforce simp: filter_empty_conv)
    with allowed_iff[of now] h pos show ?thesis by simp
  qed
  from win allowed_iff again show ?thesis by blast
qed

theorem rate_limiter_sliding_window_witness:
  "(0::int) \<le> 2 \<and> sorted (map fst [(100::real, ''10.0.0.1''), (101, ''10.0.0.1'')])
   \<and> fst (run_calls (RateLimiter_init 2 60) [(100, ''10.0.0.1''), (101, ''10.0.0.1'')]) = [True, True]
   \<and> \<not> fst (is_allowed ''10.0.0.1'' 102
              (snd (run_calls (RateLimiter_init 2 60) [(100, ''10.0.0.1''), (101, ''10.0.0.1'')])))
   \<and> fst (is_allowed ''10.0.0.1'' 161
              (snd (run_calls (RateLimiter_init 2 60) [(100, ''10.0.0.1''), (101, ''10.0.0.1'')])))"
proof -
  let ?calls = "[(100::real, ''10.0.0.1''), (101, ''10.0.0.1'')]"
  let ?run = "run_calls (RateLimiter_init 2 60) ?calls"
  have h1: "(0::int) \<le> 2" by simp
  have h2: "sorted (map fst ?calls)" by simp
  have res: "fst ?run = [True, True]"
    by (simp add: RateLimiter_init_def is_allowed_def maybe_cleanup_def requests_of_def Let_def)
  then have h3: "?run = ([True, True], snd ?run)"
    by (metis prod.collapse)
  have adm: "admitted ''10.0.0.1'' ?calls [True, True] = [100, 101]"
    by (simp add: admitted_def)
  note T = rate_limiter_sliding_window [OF h1 h2 h3, of "''10.0.0.1''", unfolded adm]
  from T have a: "\<not> fst (is_allowed ''10.0.0.1'' 102 (snd ?run))"
    by (auto dest!: conjunct2 conjunct1 spec[of _ "102::real"])
  from T have b: "fst (is_allowed ''10.0.0.1'' 161 (snd ?run))"
    by (auto dest!: conjunct2 conjunct2 spec[of _ "161::real"])
  from h1 h2 res a b show ?thesis by blast
qed

subsection \<open>Credential isolation\<close>

lemma auth_header_of_token:
  "request_token ctx = Some tok \<Longrightarrow> tok \<noteq> [] \<Longrightarrow>
     get_auth_headers None ctx ''Authorization'' = Some (bearer tok)"
  by (simp add: get_auth_headers_def py_or_def truthy_def bearer_def Let_def)

lemma wf_body_within:
  "wf_body live acts \<Longrightarrow> live \<subseteq> C \<Longrightarrow> spawned acts \<subseteq> C \<Longrightarrow> \<forall>ev\<in>set acts. runs_in C ev"
proof (induction live acts rule: wf_body.induct)
  case (3 live c c' evs)
  then show ?case by auto
qed auto

lemma wf_body_resolved:
  "wf_body live acts \<Longrightarrow> live \<subseteq> C \<Longrightarrow> spawned acts \<subseteq> C \<Longrightarrow> set (resolved acts) \<subseteq> C"
proof (induction live acts rule: wf_body.induct)
  case (3 live c c' evs)
  then show ?case by auto
qed auto

lemma wf_body_no_attach:
  "wf_body live acts \<Longrightarrow> Attach c t \<notin> set acts"
  by (induction live acts rule: wf_body.induct) auto

lemma program_within:
  assumes "wf_body {m} acts"
  shows "\<forall>ev\<in>set (request_program m tok acts). runs_in (contexts_of m acts) ev"
  using wf_body_within[OF assms, of "contexts_of m acts"]
  by (auto simp: request_program_def contexts_of_def)

lemma program_attach:
  assumes "wf_body {m} acts" "Attach c t \<in> set (request_program m tok acts)"
  shows "t = tok"
  using assms wf_body_no_attach[OF assms(1), of c t]
  by (auto simp: request_program_def)

lemma step_agree_own:
  "runs_in C ev \<Longrightarrow> agree C s s' \<Longrightarrow> agree C (step ev s) (step ev s')"
  by (cases ev) (auto simp: agree_def)

lemma step_agree_other:
  assumes "runs_in C' ev" "C \<inter> C' = {}" "agree C s s'"
  shows "agree C (step ev s) s'"
proof -
  have out: "c \<notin> C'" if "c \<in> C" for c using that assms(2) by auto
  from assms(1,3) out show ?thesis
    by (cases ev) (auto simp: agree_def)
qed

lemma shuffle_agree:
  assumes "sched \<in> shuffles pA pB"
      and "\<forall>ev\<in>set pA. runs_in CA ev" and "\<forall>ev\<in>set pB. runs_in CB ev"
      and "CA \<inter> CB = {}" and "agree CA s s'"
  shows "agree CA (exec sched s) (exec pA s')"
  using assms
proof (induction sched arbitrary: pA pB s s')
  case Nil
  then show ?case by (simp add: exec_def)
next
  case (Cons z zs)
  from Cons.prems(1) consider
      (A) "pA \<noteq> []" "hd pA = z" "zs \<in> shuffles (tl pA) pB"
    | (B) "pB \<noteq> []" "hd pB = z" "zs \<in> shuffles pA (tl pB)"
    by (auto simp: Cons_in_shuffles_iff)
  then show ?case
  proof cases
    case A
    then obtain pA' where pA: "pA = z # pA'" and sh: "zs \<in> shuffles pA' pB"
      by (cases pA) auto
    from Cons.prems(2) pA have z: "runs_in CA z" and rest: "\<forall>ev\<in>set pA'. runs_in CA ev"
      by simp_all
    have "agree CA (exec zs (step z s)) (exec pA' (step z s'))"
      using Cons.IH[OF sh rest Cons.prems(3,4) step_agree_own[OF z Cons.prems(5)]] .
    then show ?thesis
      unfolding pA by (simp add: exec_def)
  next
    case B
    then obtain pB' where pB: "pB = z # pB'" and sh: "zs \<in> shuffles pA pB'"
      by (cases pB) auto
    from Cons.prems(3) pB have z: "runs_in CB z" and rest: "\<forall>ev\<in>set pB'. runs_in CB ev"
      by simp_all
    have "agree CA (exec zs (step z s)) (exec pA s')"
      using Cons.IH[OF sh Cons.prems(2) rest Cons.prems(4)
          step_agree_other[OF z Cons.prems(4,5)]] .
    then show ?thesis by (simp add: exec_def)
  qed
qed

lemma body_run:
  "wf_body live acts \<Longrightarrow> tok \<noteq> [] \<Longrightarrow> \<forall>c\<in>live. request_token (bindings s c) = Some tok \<Longrightarrow>
     observed (exec acts s) = observed s @ map (\<lambda>c. (c, Some (bearer tok))) (resolved acts)"
proof (induction live acts arbitrary: s rule: wf_body.induct)
  case (1 live)
  then show ?case by (simp add: exec_def)
next
  case (2 live c evs)
  have "\<forall>c\<in>live. request_token (bindings (step (Resolve c) s) c) = Some tok"
    using "2.prems" by simp
  with "2.IH"[of "step (Resolve c) s"] "2.prems"
  have "observed (exec evs (step (Resolve c) s)) =
          observed (step (Resolve c) s) @ map (\<lambda>c. (c, Some (bearer tok))) (resolved evs)"
    by simp
  moreover have "observed (step (Resolve c) s) = observed s @ [(c, Some (bearer tok))]"
    using "2.prems" by (simp add: auth_header_of_token)
  ultimately show ?case by (simp add: exec_def)
next
  case (3 live c c' evs)
  have "\<forall>x\<in>insert c' live. request_token (bindings (step (Spawn c c') s) x) = Some tok"
    using "3.prems" by (simp add: copy_context_def)
  with "3.IH"[of "step (Spawn c c') s"] "3.prems"
  have "observed (exec evs (step (Spawn c c') s)) =
          observed (step (Spawn c c') s) @ map (\<lambda>c. (c, Some (bearer tok))) (resolved evs)"
    by simp
  then show ?case by (simp add: exec_def)
next
  case (4 live c token evs)
  then show ?case by simp
next
  case (5 live c evs)
  then show ?case by simp
qed

lemma program_run:
  assumes "wf_body {m} acts" "tok \<noteq> []"
  shows "observed (exec (request_program m tok acts) initial) =
           map (\<lambda>c. (c, Some (bearer tok))) (resolved acts)"
proof -
  let ?s1 = "step (Attach m tok) initial"
  have "\<forall>c\<in>{m}. request_token (bindings ?s1 c) = Some tok"
    by (simp add: set_request_token_def)
  from body_run[OF assms(1,2) this]
  have "observed (exec acts ?s1) = map (\<lambda>c. (c, Some (bearer tok))) (resolved acts)"
    by (simp add: initial_def)
  then show ?thesis
    by (simp add: request_program_def exec_def)
qed

lemma filter_own_resolutions:
  "set cs \<subseteq> C \<Longrightarrow> filter (\<lambda>(c, h). c \<in> C) (map (\<lambda>c. (c, v)) cs) = map (\<lambda>c. (c, v)) cs"
  by (induction cs) auto

lemma observed_in_interleaving:
  assumes "wf_body {a} bodyA" "wf_body {b} bodyB"
      and "contexts_of a bodyA \<inter> contexts_of b bodyB = {}"
      and "tokA \<noteq> []"
      and "sched \<in> shuffles (request_program a tokA bodyA) (request_program b tokB bodyB)"
  shows "filter (\<lambda>(c, h). c \<in> contexts_of a bodyA) (observed (exec sched initial)) =
           map (\<lambda>c. (c, Some (bearer tokA))) (resolved bodyA)"
proof -
  let ?CA = "contexts_of a bodyA"
  have "agree ?CA initial initial" by (simp add: agree_def)
  from shuffle_agree[OF assms(5) program_within[OF assms(1)] program_within[OF assms(2)]
        assms(3) this]
  have "filter (\<lambda>(c, h). c \<in> ?CA) (observed (exec sched initial)) =
          filter (\<lambda>(c, h). c \<in> ?CA) (observed (exec (request_program a tokA bodyA) initial))"
    by (simp add: agree_def)
  also have "\<dots> = filter (\<lambda>(c, h). c \<in> ?CA) (map (\<lambda>c. (c, Some (bearer tokA))) (resolved bodyA))"
    by (simp add: program_run[OF assms(1,4)])
  also have "\<dots> = map (\<lambda>c. (c, Some (bearer tokA))) (resolved bodyA)"
    using wf_body_resolved[OF assms(1), of ?CA]
    by (intro filter_own_resolutions) (auto simp: contexts_of_def)
  finally show ?thesis .
qed

lemma step_outside:
  "runs_in C ev \<Longrightarrow> c \<notin> C \<Longrightarrow> bindings (step ev s) c = bindings s c"
  by (cases ev) auto

lemma step_own:
  "runs_in C ev \<Longrightarrow> (\<forall>c t. ev = Attach c t \<longrightarrow> t = tok) \<Longrightarrow> own_or_none C tok s \<Longrightarrow>
     own_or_none C tok (step ev s)"
  by (cases ev) (auto simp: own_or_none_def set_request_token_def copy_context_def)

lemma step_other:
  assumes "runs_in C' ev" "C' \<inter> C = {}" "own_or_none C tok s"
  shows "own_or_none C tok (step ev s)"
proof -
  have "bindings (step ev s) c = bindings s c" if "c \<in> C" for c
    using that assms(2) step_outside[OF assms(1), of c s] by auto
  with assms(3) show ?thesis by (simp add: own_or_none_def)
qed

lemma exec_own:
  assumes "\<forall>ev\<in>set evs. runs_in CA ev \<or> (runs_in CB ev \<and> (\<forall>c t. ev = Attach c t \<longrightarrow> t = tokB))"
          "CA \<inter> CB = {}" "own_or_none CB tokB s"
  shows "own_or_none CB tokB (exec evs s)"
  using assms unfolding exec_def
proof (induction evs arbitrary: s)
  case Nil
  then show ?case by simp
next
  case (Cons ev evs)
  from Cons.prems have "own_or_none CB tokB (step ev s)"
    using step_own[of CB ev tokB s] step_other[of CA ev CB tokB s] by auto
  with Cons show ?case by simp
qed

text \<open>
  C1: two requests A and B run concurrently, A from its context \<open>a\<close> with the credential
  \<open>tokA\<close>, B from \<open>b\<close> with \<open>tokB\<close>, each with its own contexts, in any interleaving of
  their steps.  (1) Every resolution made by B or by a subtask of B finds B's credential,
  and (2) every resolution made by A or by a subtask spawned from A finds A's credential,
  whatever the other request does in between; (3) at every point of the execution the
  token bound in a context of B is B's credential or none.
\<close>

theorem credential_isolation:
  assumes wfA: "wf_body {a} bodyA" and wfB: "wf_body {b} bodyB"
      and disj: "contexts_of a bodyA \<inter> contexts_of b bodyB = {}"
      and tokA: "tokA \<noteq> []" and tokB: "tokB \<noteq> []"
      and sched: "sched \<in> shuffles (request_program a tokA bodyA) (request_program b tokB bodyB)"
  shows "filter (\<lambda>(c, h). c \<in> contexts_of b bodyB) (observed (exec sched initial)) =
           map (\<lambda>c. (c, Some (bearer tokB))) (resolved bodyB)
       \<and> filter (\<lambda>(c, h). c \<in> contexts_of a bodyA) (observed (exec sched initial)) =
           map (\<lambda>c. (c, Some (bearer tokA))) (resolved bodyA)
       \<and> (\<forall>n. \<forall>c\<in>contexts_of b bodyB.
             request_token (bindings (exec (take n sched) initial) c) = None
             \<or> request_token (bindings (exec (take n sched) initial) c) = Some tokB)"
proof (intro conjI allI ballI)
  from sched have sched': "sched \<in> shuffles (request_program b tokB bodyB) (request_program a tokA bodyA)"
    by (simp add: shuffles_commutes)
  from disj have disj': "contexts_of b bodyB \<inter> contexts_of a bodyA = {}" by auto
  show "filter (\<lambda>(c, h). c \<in> contexts_of b bodyB) (observed (exec sched initial)) =
           map (\<lambda>c. (c, Some (bearer tokB))) (resolved bodyB)"
    by (rule observed_in_interleaving[OF wfB wfA disj' tokB sched'])
next
  show "filter (\<lambda>(c, h). c \<in> contexts_of a bodyA) (observed (exec sched initial)) =
           map (\<lambda>c. (c, Some (bearer tokA))) (resolved bodyA)"
    by (rule observed_in_interleaving[OF wfA wfB disj tokA sched])
next
  fix n c
  assume c: "c \<in> contexts_of b bodyB"
  let ?CA = "contexts_of a bodyA" and ?CB = "contexts_of b bodyB"
  from sched have "set sched = set (request_program a tokA bodyA) \<union> set (request_program b tokB bodyB)"
    by (rule set_shuffles)
  with program_within[OF wfA, of tokA] program_within[OF wfB, of tokB] program_attach[OF wfB, of _ _ tokB]
  have "\<forall>ev\<in>set sched. runs_in ?CA ev \<or> (runs_in ?CB ev \<and> (\<forall>c t. ev = Attach c t \<longrightarrow> t = tokB))"
    by blast
  then have "\<forall>ev\<in>set (take n sched). runs_in ?CA ev \<or> (runs_in ?CB ev \<and> (\<forall>c t. ev = Attach c t \<longrightarrow> t = tokB))"
    by (meson in_set_takeD)
  moreover have "own_or_none ?CB tokB initial"
    by (simp add: own_or_none_def initial_def default_context_def)
  ultimately have "own_or_none ?CB tokB (exec (take n sched) initial)"
    using disj by (intro exec_own)
  with c show "request_token (bindings (exec (take n sched) initial) c) = None
             \<or> request_token (bindings (exec (take n sched) initial) c) = Some tokB"
    by (simp add: own_or_none_def)
qed

theorem credential_isolation_witness:
  "[Attach 0 ''tokA'', Attach 2 ''tokB'', Spawn 0 1, Resolve 2, Resolve 1, Detach 2, Resolve 0, Detach 0]
      \<in> shuffles (request_program 0 ''tokA'' [Spawn 0 1, Resolve 1, Resolve 0])
                 (request_program 2 ''tokB'' [Resolve 2])
   \<and> observed (exec [Attach 0 ''tokA'', Attach 2 ''tokB'', Spawn 0 1, Resolve 2, Resolve 1,
                     Detach 2, Resolve 0, Detach 0] initial)
       = [(2, Some ''Bearer tokB''), (1, Some ''Bearer tokA''), (0, Some ''Bearer tokA'')]
   \<and> filter (\<lambda>(c, h). c \<in> contexts_of 2 [Resolve 2])
        (observed (exec [Attach 0 ''tokA'', Attach 2 ''tokB'', Spawn 0 1, Resolve 2, Resolve 1,
                         Detach 2, Resolve 0, Detach 0] initial))
       = [(2, Some (bearer ''tokB''))]
   \<and> filter (\<lambda>(c, h). c \<in> contexts_of 0 [Spawn 0 1, Resolve 1, Resolve 0])
        (observed (exec [Attach 0 ''tokA'', Attach 2 ''tokB'', Spawn 0 1, Resolve 2, Resolve 1,
                         Detach 2, Resolve 0, Detach 0] initial))
       = [(1, Some (bearer ''tokA'')), (0, Some (bearer ''tokA''))]"
proof -
  let ?bodyA = "[Spawn 0 1, Resolve 1, Resolve 0]"
  let ?bodyB = "[Resolve 2]"
  let ?sched = "[Attach 0 ''tokA'', Attach 2 ''tokB'', Spawn 0 1, Resolve 2, Resolve 1,
                 Detach 2, Resolve 0, Detach 0]"
  have wfA: "wf_body {0} ?bodyA" by simp
  have wfB: "wf_body {2} ?bodyB" by simp
  have disj: "contexts_of 0 ?bodyA \<inter> contexts_of 2 ?bodyB = {}" by (simp add: contexts_of_def)
  have tA: "''tokA'' \<noteq> []" by simp
  have tB: "''tokB'' \<noteq> []" by simp
  have sh: "?sched \<in> shuffles (request_program 0 ''tokA'' ?bodyA) (request_program 2 ''tokB'' ?bodyB)"
    by (simp add: request_program_def)
  have obs: "observed (exec ?sched initial)
       = [(2, Some ''Bearer tokB''), (1, Some ''Bearer tokA''), (0, Some ''Bearer tokA'')]"
    by (simp add: exec_def initial_def default_context_def set_request_token_def copy_context_def
          get_auth_headers_def py_or_def truthy_def session_headers_def Let_def
          lower_def lower_char_def ascii_lowercase_def ascii_uppercase_def)
  note T = credential_isolation [OF wfA wfB disj tA tB sh]
  from T have 1: "filter (\<lambda>(c, h). c \<in> contexts_of 2 ?bodyB) (observed (exec ?sched initial))
       = [(2, Some (bearer ''tokB''))]"
    by simp
  from T have 2: "filter (\<lambda>(c, h). c \<in> contexts_of 0 ?bodyA) (observed (exec ?sched initial))
       = [(1, Some (bearer ''tokA'')), (0, Some (bearer ''tokA''))]"
    by simp
  from sh obs 1 2 show ?thesis by (intro conjI)
qed

end
